theory Spec2Isabelle
  imports Main
begin

section \<open>Asset descriptors\<close>

text \<open>
  The interface \<open>AssetInfo\<close> of the source.  Optional fields (\<open>module?\<close>, \<open>basePath?\<close>,
  \<open>baseUrl?\<close>, \<open>sourcePath?\<close>) are options.  The field \<open>publishOptions?: any\<close> is never
  written nor read by the functions embedded here and is left out.
\<close>

record AssetInfo =
  name :: string
  path :: string
  module :: "string option"
  basePath :: "string option"
  baseUrl :: "string option"
  css :: "string list"
  js :: "string list"
  depends :: "string list"
  sourcePath :: "string option"

text \<open>
  The lookup \<open>assets.find(a => a.name === n)\<close> that every analysis uses: the first
  element of the array whose name is \<open>n\<close>, or \<open>undefined\<close>.
\<close>

definition find_asset :: "AssetInfo list \<Rightarrow> string \<Rightarrow> AssetInfo option" where
  "find_asset assets n = find (\<lambda>a. name a = n) assets"

section \<open>topologicalSort\<close>

text \<open>
  The three mutable locals of \<open>topologicalSort\<close>: the array \<open>sorted\<close> and the sets
  \<open>visited\<close> and \<open>temp\<close>.
\<close>

record topo_state =
  ts_sorted :: "AssetInfo list"
  ts_visited :: "string set"
  ts_temp :: "string set"

text \<open>
  The closure \<open>visit\<close> and the \<open>forEach\<close> over \<open>asset.depends\<close> inside it.  The first
  argument bounds the depth of the call stack: \<open>visit\<close> at depth \<open>0\<close> does not return
  (\<open>None\<close>), and the calls made from \<open>visit (Suc k)\<close> run at depth \<open>k\<close>.
  \<open>sorted.unshift(asset)\<close> puts \<open>asset\<close> at the front of \<open>sorted\<close>.
\<close>

fun visit :: "nat \<Rightarrow> AssetInfo list \<Rightarrow> string \<Rightarrow> topo_state \<Rightarrow> topo_state option"
  and visit_deps :: "nat \<Rightarrow> AssetInfo list \<Rightarrow> string list \<Rightarrow> topo_state \<Rightarrow> topo_state option"
where
  "visit 0 assets n s = None"
| "visit (Suc k) assets n s =
     (if n \<in> ts_temp s then Some s
      else if n \<in> ts_visited s then Some s
      else
        let s1 = s\<lparr>ts_temp := insert n (ts_temp s)\<rparr> in
        case find_asset assets n of
          None \<Rightarrow> Some s1
        | Some asset \<Rightarrow>
            (case visit_deps k assets (depends asset) s1 of
               None \<Rightarrow> None
             | Some s2 \<Rightarrow>
                 Some (s2\<lparr>ts_temp := ts_temp s2 - {n},
                          ts_visited := insert n (ts_visited s2),
                          ts_sorted := asset # ts_sorted s2\<rparr>)))"
| "visit_deps k assets [] s = Some s"
| "visit_deps k assets (dep # deps) s =
     (case find_asset assets dep of
        None \<Rightarrow> visit_deps k assets deps s
      | Some depAsset \<Rightarrow>
          (case visit k assets dep s of
             None \<Rightarrow> None
           | Some s' \<Rightarrow> visit_deps k assets deps s'))"

text \<open>The final \<open>assets.forEach\<close>: every asset not yet in \<open>visited\<close> is visited.\<close>

fun visit_all :: "nat \<Rightarrow> AssetInfo list \<Rightarrow> AssetInfo list \<Rightarrow> topo_state \<Rightarrow> topo_state option" where
  "visit_all k assets [] s = Some s"
| "visit_all k assets (asset # rest) s =
     (if name asset \<notin> ts_visited s then
        (case visit k assets (name asset) s of
           None \<Rightarrow> None
         | Some s' \<Rightarrow> visit_all k assets rest s')
      else visit_all k assets rest s)"

definition topo_init :: topo_state where
  "topo_init = \<lparr>ts_sorted = [], ts_visited = {}, ts_temp = {}\<rparr>"

definition topologicalSort :: "nat \<Rightarrow> AssetInfo list \<Rightarrow> AssetInfo list option" where
  "topologicalSort k assets = map_option ts_sorted (visit_all k assets assets topo_init)"

section \<open>findCircularDependencies\<close>

text \<open>
  \<open>path.indexOf(x)\<close>: the first index of \<open>x\<close>, or \<open>-1\<close>;  \<open>path.slice(i)\<close>: the elements
  from index \<open>i\<close> on, a negative \<open>i\<close> counting from the end.
\<close>

fun indexOf :: "'a list \<Rightarrow> 'a \<Rightarrow> int" where
  "indexOf [] x = - 1"
| "indexOf (y # ys) x =
     (if y = x then 0 else (let i = indexOf ys x in if i = - 1 then - 1 else i + 1))"

definition slice :: "'a list \<Rightarrow> int \<Rightarrow> 'a list" where
  "slice xs i = (if i < 0 then drop (nat (int (length xs) + i)) xs else drop (nat i) xs)"

text \<open>
  The mutable locals of \<open>findCircularDependencies\<close>: the array \<open>cycles\<close> and the sets
  \<open>visited\<close> and \<open>recursionStack\<close>.
\<close>

record dfs_state =
  cycles :: "string list list"
  visited :: "string set"
  recursionStack :: "string set"

text \<open>
  The closure \<open>dfs\<close> and its \<open>for (const dependency of asset.depends)\<close> loop.  As for
  \<open>visit\<close>, the first argument bounds the depth of the call stack.  \<open>cycles.push\<close>
  appends at the end; \<open>[...path, assetName]\<close> is \<open>pth @ [n]\<close>.
\<close>

fun dfs :: "nat \<Rightarrow> AssetInfo list \<Rightarrow> string \<Rightarrow> string list \<Rightarrow> dfs_state \<Rightarrow> dfs_state option"
  and dfs_deps :: "nat \<Rightarrow> AssetInfo list \<Rightarrow> string list \<Rightarrow> string list \<Rightarrow> dfs_state \<Rightarrow> dfs_state option"
where
  "dfs 0 assets n pth s = None"
| "dfs (Suc k) assets n pth s =
     (if n \<in> recursionStack s then
        (let cycleStart = indexOf pth n in
         if cycleStart \<noteq> - 1
         then Some (s\<lparr>cycles := cycles s @ [slice pth cycleStart @ [n]]\<rparr>)
         else Some s)
      else if n \<in> visited s then Some s
      else
        let s1 = s\<lparr>visited := insert n (visited s),
                   recursionStack := insert n (recursionStack s)\<rparr> in
        case (case find_asset assets n of
                None \<Rightarrow> Some s1
              | Some asset \<Rightarrow> dfs_deps k assets (depends asset) (pth @ [n]) s1) of
          None \<Rightarrow> None
        | Some s2 \<Rightarrow> Some (s2\<lparr>recursionStack := recursionStack s2 - {n}\<rparr>))"
| "dfs_deps k assets [] pth s = Some s"
| "dfs_deps k assets (dependency # rest) pth s =
     (case dfs k assets dependency pth s of
        None \<Rightarrow> None
      | Some s' \<Rightarrow> dfs_deps k assets rest pth s')"

text \<open>The final \<open>assets.forEach\<close>: \<open>dfs(asset.name, [])\<close> for every asset not yet visited.\<close>

fun dfs_all :: "nat \<Rightarrow> AssetInfo list \<Rightarrow> AssetInfo list \<Rightarrow> dfs_state \<Rightarrow> dfs_state option" where
  "dfs_all k assets [] s = Some s"
| "dfs_all k assets (asset # rest) s =
     (if name asset \<notin> visited s then
        (case dfs k assets (name asset) [] s of
           None \<Rightarrow> None
         | Some s' \<Rightarrow> dfs_all k assets rest s')
      else dfs_all k assets rest s)"

definition dfs_init :: dfs_state where
  "dfs_init = \<lparr>cycles = [], visited = {}, recursionStack = {}\<rparr>"

definition findCircularDependencies :: "nat \<Rightarrow> AssetInfo list \<Rightarrow> string list list option" where
  "findCircularDependencies k assets = map_option cycles (dfs_all k assets assets dfs_init)"

section \<open>analyzeAssetDependencies\<close>

text \<open>
  The source renders its findings as text.  The model keeps the data that the text is
  rendered from: for one asset, the asset itself (its fields, among them \<open>depends\<close>, are
  printed one by one) and the array \<open>dependents\<close>; for the whole set, the arrays
  \<open>rootAssets\<close>, \<open>complexAssets\<close>, \<open>circularDeps\<close> and \<open>sortedAssets\<close>.
\<close>

record specific_report =
  target :: AssetInfo
  dependencies :: "string list"
  dependents :: "AssetInfo list"

record overall_report =
  rootAssets :: "AssetInfo list"
  complexAssets :: "AssetInfo list"
  circularDeps :: "string list list"
  sortedAssets :: "AssetInfo list"

datatype analysis = Specific specific_report | Overall overall_report

text \<open>\<open>allAssets.filter(a => a.depends.includes(asset.name))\<close> is the "Used By" list.\<close>

definition analyzeSpecificAsset :: "AssetInfo \<Rightarrow> AssetInfo list \<Rightarrow> specific_report" where
  "analyzeSpecificAsset asset allAssets =
     \<lparr>target = asset,
      dependencies = depends asset,
      dependents = filter (\<lambda>a. name asset \<in> set (depends a)) allAssets\<rparr>"

text \<open>\<open>dep.startsWith('yii\\')\<close>: the dependency begins with the four characters \<open>yii\\<close>.\<close>

definition startsWith :: "string \<Rightarrow> string \<Rightarrow> bool" where
  "startsWith str pre = (take (length pre) str = pre)"

definition yii_prefix :: string where
  "yii_prefix = ''yii'' @ [CHR 0x5C]"

definition analyzeAll :: "nat \<Rightarrow> AssetInfo list \<Rightarrow> overall_report option" where
  "analyzeAll k assets =
     (case findCircularDependencies k assets of
        None \<Rightarrow> None
      | Some circular \<Rightarrow>
          (case topologicalSort k assets of
             None \<Rightarrow> None
           | Some sortedA \<Rightarrow>
               Some \<lparr>rootAssets =
                        filter (\<lambda>asset. length (depends asset) = 0 \<or>
                                  list_all (\<lambda>dep. startsWith dep yii_prefix) (depends asset)) assets,
                     complexAssets = filter (\<lambda>asset. length (depends asset) > 2) assets,
                     circularDeps = circular,
                     sortedAssets = sortedA\<rparr>))"

text \<open>
  The message of the \<open>Error\<close> thrown inside the \<open>try\<close>, and the one the \<open>catch\<close> block
  throws in its place.
\<close>

definition not_found_message :: "string \<Rightarrow> string" where
  "not_found_message assetName = ''Asset '' @ [CHR 0x27] @ assetName @ [CHR 0x27] @ '' not found''"

definition failed_message :: "string \<Rightarrow> string" where
  "failed_message msg = ''Failed to analyze asset dependencies: '' @ msg"

text \<open>
  \<open>analyzeAssetDependencies(assetName?)\<close> on the array that \<open>getAllAssets()\<close> returned.
  \<open>if (assetName)\<close> is false for \<open>undefined\<close> and for the empty string.  A thrown
  \<open>Error\<close> is \<open>Inl\<close> of its message; \<open>None\<close> is a call stack exhausted at depth \<open>k\<close>.
\<close>

definition analyzeAssetDependencies ::
    "nat \<Rightarrow> AssetInfo list \<Rightarrow> string option \<Rightarrow> (string + analysis) option" where
  "analyzeAssetDependencies k assets assetName =
     (if (case assetName of None \<Rightarrow> False | Some n \<Rightarrow> n \<noteq> [])
      then
        (case assetName of
           None \<Rightarrow> None
         | Some n \<Rightarrow>
             (case find_asset assets n of
                None \<Rightarrow> Some (Inl (failed_message (not_found_message n)))
              | Some asset \<Rightarrow> Some (Inr (Specific (analyzeSpecificAsset asset assets)))))
      else map_option (\<lambda>r. Inr (Overall r)) (analyzeAll k assets))"

section \<open>parseAssetFile: the dependency list\<close>

















section \<open>Concrete descriptors\<close>

text \<open>
  The descriptor that \<open>parseAssetFile\<close> starts from (\<open>css: [], js: [], depends: []\<close>, no
  optional field set), with a given name and dependency list.
\<close>

definition bare_asset :: "string \<Rightarrow> string list \<Rightarrow> AssetInfo" where
  "bare_asset n ds =
     \<lparr>name = n, path = n @ ''.php'', module = None, basePath = None, baseUrl = None,
      css = [], js = [], depends = ds, sourcePath = None\<rparr>"

lemma bare_asset_sel [simp]:
  "name (bare_asset n ds) = n" "depends (bare_asset n ds) = ds"
  by (simp_all add: bare_asset_def)

lemma bare_asset_eq_iff [simp]:
  "bare_asset n ds = bare_asset n' ds' \<longleftrightarrow> n = n' \<and> ds = ds'"
  by (auto simp: bare_asset_def)

section \<open>The dependency graph\<close>

text \<open>
  The graph that the analyses walk: an edge leads from a name to every entry of the
  \<open>depends\<close> of the descriptor that the lookup returns for that name.  A name without
  descriptor has no outgoing edge.
\<close>

definition dep_edges :: "AssetInfo list \<Rightarrow> (string \<times> string) set" where
  "dep_edges assets =
     {(n, d). \<exists>a. find_asset assets n = Some a \<and> d \<in> set (depends a)}"

abbreviation edge :: "AssetInfo list \<Rightarrow> string \<Rightarrow> string \<Rightarrow> bool" where
  "edge assets \<equiv> (\<lambda>x y. (x, y) \<in> dep_edges assets)"

text \<open>
  A reported cycle as the specification describes it: at least two names, the first
  equal to the last; here also: all of them names of descriptors.
\<close>

definition closed_walk :: "AssetInfo list \<Rightarrow> string list \<Rightarrow> bool" where
  "closed_walk assets c \<longleftrightarrow>
     2 \<le> length c \<and> hd c = last c \<and> set c \<subseteq> name ` set assets"

text \<open>Among the cycles recorded so far there is one through both \<open>A\<close> and \<open>B\<close>.\<close>

definition joins :: "string \<Rightarrow> string \<Rightarrow> dfs_state \<Rightarrow> bool" where
  "joins A B s \<longleftrightarrow>
     (\<exists>c\<in>set (cycles s). 2 \<le> length c \<and> hd c = last c \<and> A \<in> set c \<and> B \<in> set c)"

text \<open>
  The invariant of the traversal for two names \<open>A\<close> and \<open>B\<close> that depend on each other:
  as soon as one of them has been visited, either a cycle through both is recorded, or
  that one is still on the recursion stack and the other one is not yet visited.
\<close>

definition mutual_inv :: "string \<Rightarrow> string \<Rightarrow> dfs_state \<Rightarrow> bool" where
  "mutual_inv A B s \<longleftrightarrow>
     (A \<notin> visited s \<and> B \<notin> visited s) \<or> joins A B s \<or>
     (A \<in> recursionStack s \<and> B \<notin> visited s) \<or>
     (B \<in> recursionStack s \<and> A \<notin> visited s)"

text \<open>
  In a sequence of descriptors, every dependency that names a descriptor of the set
  occurs behind the descriptor that declares it.
\<close>

fun deps_after :: "AssetInfo list \<Rightarrow> AssetInfo list \<Rightarrow> bool" where
  "deps_after assets [] = True"
| "deps_after assets (a # ys) =
     ((\<forall>r\<in>set (depends a). r \<in> name ` set assets \<longrightarrow> r \<in> name ` set ys) \<and> deps_after assets ys)"

text \<open>
  The invariant of \<open>visit\<close> on an acyclic graph: \<open>sorted\<close> lists exactly the visited names,
  each once, dependencies behind their dependents; no name is in progress and visited at
  once; every listed descriptor is the one that the lookup returns for its name.
\<close>

definition topo_inv :: "AssetInfo list \<Rightarrow> topo_state \<Rightarrow> bool" where
  "topo_inv assets s \<longleftrightarrow>
     name ` set (ts_sorted s) = ts_visited s \<and>
     distinct (map name (ts_sorted s)) \<and>
     deps_after assets (ts_sorted s) \<and>
     ts_temp s \<inter> ts_visited s = {} \<and>
     (\<forall>a\<in>set (ts_sorted s). find_asset assets (name a) = Some a)"

text \<open>Every descriptor in \<open>sorted\<close> is the one that the lookup returns for its name.\<close>

definition first_match :: "AssetInfo list \<Rightarrow> topo_state \<Rightarrow> bool" where
  "first_match assets s \<longleftrightarrow> (\<forall>a\<in>set (ts_sorted s). find_asset assets (name a) = Some a)"




section \<open>The lookup, indexOf and slice\<close>

lemma find_asset_Some: "find_asset assets n = Some a \<Longrightarrow> a \<in> set assets \<and> name a = n"
  unfolding find_asset_def by (auto simp: find_Some_iff)

lemma find_asset_None: "find_asset assets n = None \<longleftrightarrow> n \<notin> name ` set assets"
  unfolding find_asset_def by (auto simp: find_None_iff)

text \<open>
  Where the names are pairwise different, the lookup returns the descriptor of the name,
  and the edges are the declared dependencies of the descriptors.
\<close>

lemma find_asset_distinct:
  "distinct (map name assets) \<Longrightarrow> a \<in> set assets \<Longrightarrow> find_asset assets (name a) = Some a"
  by (induction assets) (auto simp: find_asset_def)

lemma dep_edges_distinct:
  assumes "distinct (map name assets)"
  shows "dep_edges assets = {(name a, d) | a d. a \<in> set assets \<and> d \<in> set (depends a)}"
proof -
  have "(n, d) \<in> dep_edges assets \<longleftrightarrow> (\<exists>a\<in>set assets. name a = n \<and> d \<in> set (depends a))" for n d
    using find_asset_distinct[OF assms] find_asset_Some[of assets n]
    unfolding dep_edges_def by auto
  then show ?thesis by auto
qed

lemma indexOf_ge: "- 1 \<le> indexOf xs x"
  by (induction xs) (auto simp: Let_def)

lemma indexOf_neg_iff: "indexOf xs x = - 1 \<longleftrightarrow> x \<notin> set xs"
proof (induction xs)
  case Nil
  show ?case by simp
next
  case (Cons y ys)
  have "- 1 \<le> indexOf ys x" by (rule indexOf_ge)
  with Cons show ?case by (auto simp: Let_def)
qed

lemma indexOf_split:
  "x \<in> set xs \<Longrightarrow> \<exists>pre post. xs = pre @ x # post \<and> x \<notin> set pre \<and> indexOf xs x = int (length pre)"
proof (induction xs)
  case Nil
  then show ?case by simp
next
  case (Cons y ys)
  show ?case
  proof (cases "y = x")
    case True
    then have "y # ys = [] @ x # ys \<and> x \<notin> set [] \<and> indexOf (y # ys) x = int (length ([]::'a list))"
      by simp
    then show ?thesis by blast
  next
    case False
    with Cons.prems have "x \<in> set ys" by simp
    from Cons.IH[OF this] obtain pre post where
      *: "ys = pre @ x # post" "x \<notin> set pre" "indexOf ys x = int (length pre)" by blast
    with False have "y # ys = (y # pre) @ x # post \<and> x \<notin> set (y # pre)
        \<and> indexOf (y # ys) x = int (length (y # pre))"
      by (auto simp: Let_def)
    then show ?thesis by blast
  qed
qed

lemma slice_indexOf:
  assumes "x \<in> set xs"
  shows "\<exists>pre post. xs = pre @ x # post \<and> x \<notin> set pre \<and> slice xs (indexOf xs x) = x # post"
proof -
  from indexOf_split[OF assms] obtain pre post where
    *: "xs = pre @ x # post" "x \<notin> set pre" "indexOf xs x = int (length pre)" by blast
  then have "slice xs (indexOf xs x) = x # post" by (simp add: slice_def)
  with * show ?thesis by blast
qed

lemma dfs_Suc_cases:
  assumes "dfs (Suc k) assets n pth s = Some s'"
  obtains
    (hit) "n \<in> recursionStack s" "n \<in> set pth"
      "s' = s\<lparr>cycles := cycles s @ [slice pth (indexOf pth n) @ [n]]\<rparr>"
  | (stale) "n \<in> recursionStack s" "n \<notin> set pth" "s' = s"
  | (seen) "n \<notin> recursionStack s" "n \<in> visited s" "s' = s"
  | (leaf) "n \<notin> recursionStack s" "n \<notin> visited s" "find_asset assets n = None"
      "s' = s\<lparr>visited := insert n (visited s)\<rparr>"
  | (node) a s2 where "n \<notin> recursionStack s" "n \<notin> visited s" "find_asset assets n = Some a"
      "dfs_deps k assets (depends a) (pth @ [n])
         (s\<lparr>visited := insert n (visited s), recursionStack := insert n (recursionStack s)\<rparr>)
       = Some s2"
      "s' = s2\<lparr>recursionStack := recursionStack s2 - {n}\<rparr>"
proof (cases "n \<in> recursionStack s")
  case True
  show ?thesis
  proof (cases "n \<in> set pth")
    case inp: True
    then have "indexOf pth n \<noteq> - 1" by (simp add: indexOf_neg_iff)
    with assms True have "s' = s\<lparr>cycles := cycles s @ [slice pth (indexOf pth n) @ [n]]\<rparr>"
      by (simp add: Let_def)
    with True inp show ?thesis by (rule hit)
  next
    case notinp: False
    then have "indexOf pth n = - 1" by (simp add: indexOf_neg_iff)
    with assms True have "s' = s" by (simp add: Let_def)
    with True notinp show ?thesis by (rule stale)
  qed
next
  case nst: False
  show ?thesis
  proof (cases "n \<in> visited s")
    case True
    with assms nst have "s' = s" by simp
    with nst True show ?thesis by (rule seen)
  next
    case nvis: False
    show ?thesis
    proof (cases "find_asset assets n")
      case None
      with assms nst nvis have "s' = s\<lparr>visited := insert n (visited s)\<rparr>"
        by (auto simp: Let_def)
      with nst nvis None show ?thesis by (rule leaf)
    next
      case (Some a)
      with assms nst nvis obtain s2 where
        "dfs_deps k assets (depends a) (pth @ [n])
           (s\<lparr>visited := insert n (visited s), recursionStack := insert n (recursionStack s)\<rparr>)
         = Some s2"
        "s' = s2\<lparr>recursionStack := recursionStack s2 - {n}\<rparr>"
        by (auto simp: Let_def split: option.splits)
      with nst nvis Some show ?thesis by (rule node)
    qed
  qed
qed

lemma dfs_deps_Cons_cases:
  assumes "dfs_deps k assets (d # rest) pth s = Some s'"
  obtains s1 where "dfs k assets d pth s = Some s1" "dfs_deps k assets rest pth s1 = Some s'"
  using assms by (auto split: option.splits)

section \<open>The cycle detector\<close>

text \<open>The recursion stack is restored by a call; \<open>visited\<close> and \<open>cycles\<close> only grow.\<close>

lemma dfs_frame:
  "dfs k assets n pth s = Some s' \<Longrightarrow>
     recursionStack s' = recursionStack s \<and> visited s \<subseteq> visited s' \<and>
     (n \<in> recursionStack s \<or> n \<in> visited s') \<and> (\<exists>cs. cycles s' = cycles s @ cs)"
  "dfs_deps k assets deps pth s = Some s' \<Longrightarrow>
     recursionStack s' = recursionStack s \<and> visited s \<subseteq> visited s' \<and>
     (\<forall>d\<in>set deps. d \<in> recursionStack s \<or> d \<in> visited s') \<and> (\<exists>cs. cycles s' = cycles s @ cs)"
proof (induction k assets n pth s and k assets deps pth s arbitrary: s' and s'
    rule: dfs_dfs_deps.induct)
  case (1 assets n pth s)
  then show ?case by simp
next
  case (2 k assets n pth s)
  from "2.prems" show ?case
  proof (cases rule: dfs_Suc_cases)
    case (node a s2)
    from "2.IH"[OF node(1) node(2) refl node(3) node(4)] node(1) node(5)
    show ?thesis by auto
  qed auto
next
  case (3 k assets pth s)
  then show ?case by simp
next
  case (4 k assets d rest pth s)
  from "4.prems" obtain s1 where
    s1: "dfs k assets d pth s = Some s1" and s': "dfs_deps k assets rest pth s1 = Some s'"
    by (rule dfs_deps_Cons_cases)
  from "4.IH"(1)[OF s1] "4.IH"(2)[OF s1 s'] show ?case by auto
qed

lemma dfs_all_Cons_cases:
  assumes "dfs_all k assets (a # rest) s = Some s'"
  obtains (skip) "name a \<in> visited s" "dfs_all k assets rest s = Some s'"
  | (call) s1 where "name a \<notin> visited s" "dfs k assets (name a) [] s = Some s1"
      "dfs_all k assets rest s1 = Some s'"
  using assms by (auto split: option.splits if_splits)

lemma dfs_all_frame:
  "dfs_all k assets xs s = Some s' \<Longrightarrow> recursionStack s = {} \<Longrightarrow>
     recursionStack s' = recursionStack s \<and> visited s \<subseteq> visited s' \<and>
     name ` set xs \<subseteq> visited s' \<and> (\<exists>cs. cycles s' = cycles s @ cs)"
proof (induction xs arbitrary: s)
  case Nil
  then show ?case by simp
next
  case (Cons a rest)
  from Cons.prems show ?case
  proof (cases rule: dfs_all_Cons_cases)
    case skip
    from Cons.IH[OF skip(2) Cons.prems(2)] skip(1) show ?thesis by auto
  next
    case (call s1)
    from dfs_frame(1)[OF call(2)] Cons.prems(2)
    have f1: "recursionStack s1 = {}" "visited s \<subseteq> visited s1" "name a \<in> visited s1"
      "\<exists>cs. cycles s1 = cycles s @ cs" by auto
    from Cons.IH[OF call(3) f1(1)] f1 Cons.prems(2) show ?thesis by auto
  qed
qed

text \<open>Every recorded cycle is a closed walk over names of descriptors.\<close>

lemma dfs_cycles_shape:
  "dfs k assets n pth s = Some s' \<Longrightarrow> set pth \<subseteq> name ` set assets \<Longrightarrow>
     \<forall>c\<in>set (cycles s). closed_walk assets c \<Longrightarrow> \<forall>c\<in>set (cycles s'). closed_walk assets c"
  "dfs_deps k assets deps pth s = Some s' \<Longrightarrow> set pth \<subseteq> name ` set assets \<Longrightarrow>
     \<forall>c\<in>set (cycles s). closed_walk assets c \<Longrightarrow> \<forall>c\<in>set (cycles s'). closed_walk assets c"
proof (induction k assets n pth s and k assets deps pth s arbitrary: s' and s'
    rule: dfs_dfs_deps.induct)
  case (1 assets n pth s)
  then show ?case by simp
next
  case (2 k assets n pth s)
  from "2.prems"(1) show ?case
  proof (cases rule: dfs_Suc_cases)
    case hit
    from slice_indexOf[OF hit(2)] obtain pre post where
      pth: "pth = pre @ n # post" and sl: "slice pth (indexOf pth n) = n # post" by blast
    from pth "2.prems"(2) have "closed_walk assets (n # post @ [n])"
      by (auto simp: closed_walk_def)
    with hit(3) sl "2.prems"(3) show ?thesis by auto
  next
    case (node a s2)
    from find_asset_Some[OF node(3)] "2.prems"(2)
    have sub: "set (pth @ [n]) \<subseteq> name ` set assets" by auto
    from "2.IH"[OF node(1) node(2) refl node(3) node(4) sub] "2.prems"(3) node(5)
    show ?thesis by simp
  qed (use "2.prems" in auto)
next
  case (3 k assets pth s)
  then show ?case by simp
next
  case (4 k assets d rest pth s)
  from "4.prems"(1) obtain s1 where
    s1: "dfs k assets d pth s = Some s1" and s': "dfs_deps k assets rest pth s1 = Some s'"
    by (rule dfs_deps_Cons_cases)
  from "4.IH"(1)[OF s1 "4.prems"(2) "4.prems"(3)]
  have "\<forall>c\<in>set (cycles s1). closed_walk assets c" .
  from "4.IH"(2)[OF s1 s' "4.prems"(2) this] show ?case .
qed

lemma dfs_all_cycles_shape:
  "dfs_all k assets xs s = Some s' \<Longrightarrow>
     \<forall>c\<in>set (cycles s). closed_walk assets c \<Longrightarrow> \<forall>c\<in>set (cycles s'). closed_walk assets c"
proof (induction xs arbitrary: s)
  case Nil
  then show ?case by simp
next
  case (Cons a rest)
  from Cons.prems(1) show ?case
  proof (cases rule: dfs_all_Cons_cases)
    case skip
    from Cons.IH[OF skip(2) Cons.prems(2)] show ?thesis .
  next
    case (call s1)
    from dfs_cycles_shape(1)[OF call(2) _ Cons.prems(2)]
    have "\<forall>c\<in>set (cycles s1). closed_walk assets c" by simp
    from Cons.IH[OF call(3) this] show ?thesis .
  qed
qed

text \<open>
  Termination: a call returns when the depth exceeds the number of unvisited names.
\<close>

lemma dfs_terminates:
  "card (name ` set assets - visited s) < k \<Longrightarrow> \<exists>s'. dfs k assets n pth s = Some s'"
  "card (name ` set assets - visited s) < k \<Longrightarrow> \<exists>s'. dfs_deps k assets deps pth s = Some s'"
proof (induction k assets n pth s and k assets deps pth s rule: dfs_dfs_deps.induct)
  case (1 assets n pth s)
  then show ?case by simp
next
  case (2 k assets n pth s)
  show ?case
  proof (cases "n \<notin> recursionStack s \<and> n \<notin> visited s \<and> find_asset assets n \<noteq> None")
    case False
    then show ?thesis by (auto simp: Let_def)
  next
    case True
    then obtain a where a: "find_asset assets n = Some a" by blast
    let ?s1 = "s\<lparr>visited := insert n (visited s), recursionStack := insert n (recursionStack s)\<rparr>"
    from find_asset_Some[OF a] True
    have "name ` set assets - visited ?s1 \<subset> name ` set assets - visited s" by auto
    then have "card (name ` set assets - visited ?s1) < card (name ` set assets - visited s)"
      by (intro psubset_card_mono) auto
    with "2.prems" have "card (name ` set assets - visited ?s1) < k" by simp
    from "2.IH"[OF _ _ refl a this] True obtain s2 where
      "dfs_deps k assets (depends a) (pth @ [n]) ?s1 = Some s2" by blast
    with True a show ?thesis by (simp add: Let_def)
  qed
next
  case (3 k assets pth s)
  then show ?case by simp
next
  case (4 k assets d rest pth s)
  from "4.IH"(1)[OF "4.prems"] obtain s1 where s1: "dfs k assets d pth s = Some s1" by blast
  from dfs_frame(1)[OF s1] have "visited s \<subseteq> visited s1" by simp
  then have "card (name ` set assets - visited s1) \<le> card (name ` set assets - visited s)"
    by (intro card_mono) auto
  with "4.prems" have "card (name ` set assets - visited s1) < k" by simp
  from "4.IH"(2)[OF s1 this] s1 show ?case by simp
qed

lemma dfs_all_terminates:
  "card (name ` set assets - visited s) < k \<Longrightarrow> \<exists>s'. dfs_all k assets xs s = Some s'"
proof (induction xs arbitrary: s)
  case Nil
  then show ?case by simp
next
  case (Cons a rest)
  show ?case
  proof (cases "name a \<in> visited s")
    case True
    with Cons.IH[OF Cons.prems] show ?thesis by simp
  next
    case False
    from dfs_terminates(1)[OF Cons.prems] obtain s1 where
      s1: "dfs k assets (name a) [] s = Some s1" by blast
    from dfs_frame(1)[OF s1] have "visited s \<subseteq> visited s1" by simp
    then have "card (name ` set assets - visited s1) \<le> card (name ` set assets - visited s)"
      by (intro card_mono) auto
    with Cons.prems have "card (name ` set assets - visited s1) < k" by simp
    from Cons.IH[OF this] False s1 show ?thesis by simp
  qed
qed

lemma card_names_le: "card (name ` set assets - V) \<le> length assets"
proof -
  have "card (name ` set assets - V) \<le> card (name ` set assets)"
    by (intro card_mono) auto
  also have "\<dots> \<le> card (set assets)" by (rule card_image_le) simp
  also have "\<dots> \<le> length assets" by (rule card_length)
  finally show ?thesis .
qed

lemma findCircularDependencies_returns:
  assumes "length assets < k"
  shows "\<exists>cs. findCircularDependencies k assets = Some cs"
proof -
  from card_names_le[of assets "visited dfs_init"] assms
  have "card (name ` set assets - visited dfs_init) < k" by simp
  from dfs_all_terminates[OF this, of assets] show ?thesis
    by (auto simp: findCircularDependencies_def)
qed

lemma successively_trancl:
  "successively (\<lambda>x y. (x, y) \<in> E) (x # ys @ [z]) \<Longrightarrow> (x, z) \<in> E\<^sup>+"
proof (induction ys arbitrary: x)
  case Nil
  then show ?case by auto
next
  case (Cons y ys)
  then have "(x, y) \<in> E" and "(y, z) \<in> E\<^sup>+" by auto
  then show ?case by (rule trancl_into_trancl2)
qed

lemma dfs_acyclic_no_cycle:
  "dfs k assets n pth s = Some s' \<Longrightarrow> acyclic (dep_edges assets) \<Longrightarrow>
     successively (edge assets) (pth @ [n]) \<Longrightarrow> cycles s' = cycles s"
  "dfs_deps k assets deps pth s = Some s' \<Longrightarrow> acyclic (dep_edges assets) \<Longrightarrow>
     \<forall>d\<in>set deps. successively (edge assets) (pth @ [d]) \<Longrightarrow> cycles s' = cycles s"
proof (induction k assets n pth s and k assets deps pth s arbitrary: s' and s'
    rule: dfs_dfs_deps.induct)
  case (1 assets n pth s)
  then show ?case by simp
next
  case (2 k assets n pth s)
  from "2.prems"(1) show ?case
  proof (cases rule: dfs_Suc_cases)
    case hit
    from slice_indexOf[OF hit(2)] obtain pre post where
      pth: "pth = pre @ n # post" by blast
    with "2.prems"(3) have "successively (edge assets) (pre @ (n # post @ [n]))" by simp
    then have "successively (edge assets) (n # post @ [n])"
      unfolding successively_append_iff by simp
    then have "(n, n) \<in> (dep_edges assets)\<^sup>+" by (rule successively_trancl)
    with "2.prems"(2) show ?thesis by (simp add: acyclic_def)
  next
    case (node a s2)
    have "\<forall>d\<in>set (depends a). successively (edge assets) ((pth @ [n]) @ [d])"
    proof
      fix d assume "d \<in> set (depends a)"
      with node(3) have "(n, d) \<in> dep_edges assets" by (auto simp: dep_edges_def)
      with "2.prems"(3) show "successively (edge assets) ((pth @ [n]) @ [d])"
        unfolding successively_append_iff by simp
    qed
    from "2.IH"[OF node(1) node(2) refl node(3) node(4) "2.prems"(2) this] node(5)
    show ?thesis by simp
  qed auto
next
  case (3 k assets pth s)
  then show ?case by simp
next
  case (4 k assets d rest pth s)
  from "4.prems"(1) obtain s1 where
    s1: "dfs k assets d pth s = Some s1" and s': "dfs_deps k assets rest pth s1 = Some s'"
    by (rule dfs_deps_Cons_cases)
  from "4.IH"(1)[OF s1 "4.prems"(2)] "4.prems"(3) have "cycles s1 = cycles s" by simp
  moreover from "4.IH"(2)[OF s1 s' "4.prems"(2)] "4.prems"(3) have "cycles s' = cycles s1" by simp
  ultimately show ?case by simp
qed

lemma dfs_all_acyclic_no_cycle:
  "dfs_all k assets xs s = Some s' \<Longrightarrow> acyclic (dep_edges assets) \<Longrightarrow> cycles s' = cycles s"
proof (induction xs arbitrary: s)
  case Nil
  then show ?case by simp
next
  case (Cons a rest)
  from Cons.prems(1) show ?case
  proof (cases rule: dfs_all_Cons_cases)
    case skip
    from Cons.IH[OF skip(2) Cons.prems(2)] show ?thesis .
  next
    case (call s1)
    from dfs_acyclic_no_cycle(1)[OF call(2) Cons.prems(2)] have "cycles s1 = cycles s" by simp
    with Cons.IH[OF call(3) Cons.prems(2)] show ?thesis by simp
  qed
qed

text \<open>
  A dependency that is on the recursion stack is recorded as a cycle through it and
  through the name whose dependencies are traversed.
\<close>

lemma joins_sym: "joins A B s \<longleftrightarrow> joins B A s"
  by (auto simp: joins_def)

lemma joins_mono: "joins A B s \<Longrightarrow> cycles s' = cycles s @ cs \<Longrightarrow> joins A B s'"
  by (auto simp: joins_def)

lemma dfs_deps_back_edge:
  "dfs_deps k assets deps pth s = Some s' \<Longrightarrow> set pth = recursionStack s \<Longrightarrow> pth \<noteq> [] \<Longrightarrow>
     d \<in> set deps \<Longrightarrow> d \<in> recursionStack s \<Longrightarrow> joins d (last pth) s'"
proof (induction deps arbitrary: s)
  case Nil
  then show ?case by simp
next
  case (Cons x rest)
  from Cons.prems(1) obtain s1 where
    s1: "dfs k assets x pth s = Some s1" and s': "dfs_deps k assets rest pth s1 = Some s'"
    by (rule dfs_deps_Cons_cases)
  from dfs_frame(1)[OF s1] have st1: "recursionStack s1 = recursionStack s" by simp
  show ?case
  proof (cases "d = x")
    case True
    from s1 obtain k' where k: "k = Suc k'" by (cases k) auto
    from Cons.prems(2,5) True have inp: "x \<in> set pth" by simp
    from s1[unfolded k] have "joins d (last pth) s1"
    proof (cases rule: dfs_Suc_cases)
      case hit
      from slice_indexOf[OF hit(2)] obtain pre post where
        pth: "pth = pre @ x # post" and sl: "slice pth (indexOf pth x) = x # post" by blast
      have "last pth \<in> set (x # post @ [x])" unfolding pth by (cases post rule: rev_cases) auto
      with hit(3) sl True show ?thesis
        by (auto simp: joins_def intro!: bexI[where x="x # post @ [x]"])
    qed (use Cons.prems True inp in auto)
    moreover from dfs_frame(2)[OF s'] obtain cs where "cycles s' = cycles s1 @ cs" by blast
    ultimately show ?thesis by (rule joins_mono)
  next
    case False
    with Cons.prems(4) have "d \<in> set rest" by simp
    from Cons.IH[OF s' _ Cons.prems(3) this] st1 Cons.prems(2,5) show ?thesis by simp
  qed
qed

lemma mutual_inv_sym: "mutual_inv A B s \<longleftrightarrow> mutual_inv B A s"
  unfolding mutual_inv_def using joins_sym[of A B s] by auto

lemma mutual_node_step:
  assumes a: "find_asset assets A = Some a" and B: "B \<in> set (depends a)"
    and s1: "s1 = s\<lparr>visited := insert A (visited s), recursionStack := insert A (recursionStack s)\<rparr>"
    and run: "dfs_deps k assets (depends a) (pth @ [A]) s1 = Some s2"
    and pth: "set pth = recursionStack s"
    and fresh: "A \<notin> recursionStack s" "A \<notin> visited s"
    and inv: "mutual_inv A B s"
    and step: "mutual_inv A B s1 \<Longrightarrow> mutual_inv A B s2"
  shows "joins A B s2"
proof (cases "B \<in> recursionStack s1")
  case True
  from pth s1 have "set (pth @ [A]) = recursionStack s1" by simp
  from dfs_deps_back_edge[OF run this _ B True] have "joins B A s2" by simp
  then show ?thesis by (simp add: joins_sym)
next
  case False
  with s1 have BA: "B \<noteq> A" and Bst: "B \<notin> recursionStack s" by auto
  from dfs_frame(2)[OF run] obtain cs where
    fr: "visited s1 \<subseteq> visited s2" "\<forall>d\<in>set (depends a). d \<in> recursionStack s1 \<or> d \<in> visited s2"
      "cycles s2 = cycles s1 @ cs" by blast
  show ?thesis
  proof (cases "joins A B s")
    case True
    with s1 have "joins A B s1" by (simp add: joins_def)
    then show ?thesis using fr(3) by (rule joins_mono)
  next
    case nj: False
    with inv fresh Bst have "B \<notin> visited s" by (auto simp: mutual_inv_def)
    with BA s1 have "mutual_inv A B s1" by (simp add: mutual_inv_def)
    from step[OF this] have m2: "mutual_inv A B s2" .
    from fr(2) B False have "B \<in> visited s2" by blast
    moreover from fr(1) s1 have "A \<in> visited s2" by auto
    ultimately show ?thesis using m2 by (auto simp: mutual_inv_def)
  qed
qed

lemma dfs_mutual_inv:
  "dfs k assets n pth s = Some s' \<Longrightarrow> set pth = recursionStack s \<Longrightarrow>
     mutual_inv A B s \<Longrightarrow> (A, B) \<in> dep_edges assets \<Longrightarrow> (B, A) \<in> dep_edges assets \<Longrightarrow>
     mutual_inv A B s'"
  "dfs_deps k assets deps pth s = Some s' \<Longrightarrow> set pth = recursionStack s \<Longrightarrow>
     mutual_inv A B s \<Longrightarrow> (A, B) \<in> dep_edges assets \<Longrightarrow> (B, A) \<in> dep_edges assets \<Longrightarrow>
     mutual_inv A B s'"
proof (induction k assets n pth s and k assets deps pth s arbitrary: s' and s'
    rule: dfs_dfs_deps.induct)
  case (1 assets n pth s)
  then show ?case by simp
next
  case (2 k assets n pth s)
  note AB = "2.prems"(4) and BA = "2.prems"(5)
  from AB obtain a where a: "find_asset assets A = Some a" "B \<in> set (depends a)"
    by (auto simp: dep_edges_def)
  from BA obtain b where b: "find_asset assets B = Some b" "A \<in> set (depends b)"
    by (auto simp: dep_edges_def)
  from "2.prems"(1) show ?case
  proof (cases rule: dfs_Suc_cases)
    case hit
    with "2.prems"(3) show ?thesis by (auto simp: mutual_inv_def joins_def)
  next
    case stale
    with "2.prems"(3) show ?thesis by simp
  next
    case seen
    with "2.prems"(3) show ?thesis by simp
  next
    case leaf
    with a b have "n \<noteq> A" "n \<noteq> B" by auto
    with leaf "2.prems"(3) show ?thesis by (auto simp: mutual_inv_def joins_def)
  next
    case (node x s2)
    let ?s1 = "s\<lparr>visited := insert n (visited s), recursionStack := insert n (recursionStack s)\<rparr>"
    from "2.prems"(2) have p1: "set (pth @ [n]) = recursionStack ?s1" by simp
    have step: "mutual_inv A B ?s1 \<Longrightarrow> mutual_inv A B s2"
      using "2.IH"[OF node(1) node(2) refl node(3) node(4) p1 _ AB BA] .
    from node(5) have cyc: "cycles s' = cycles s2 @ []" by simp
    show ?thesis
    proof (cases "n = A")
      case True
      with node(3) a have xa: "x = a" by simp
      from mutual_node_step[OF a(1) a(2) refl node(4)[unfolded True xa] "2.prems"(2)
          node(1)[unfolded True] node(2)[unfolded True] "2.prems"(3) step[unfolded True]]
      have "joins A B s2" .
      from joins_mono[OF this cyc] show ?thesis by (simp add: mutual_inv_def)
    next
      case nA: False
      show ?thesis
      proof (cases "n = B")
        case True
        with node(3) b have xb: "x = b" by simp
        from "2.prems"(3) have inv': "mutual_inv B A s" by (simp add: mutual_inv_sym)
        from mutual_node_step[OF b(1) b(2) refl node(4)[unfolded True xb] "2.prems"(2)
            node(1)[unfolded True] node(2)[unfolded True] inv'
            step[unfolded True mutual_inv_sym[of A B]]]
        have "joins B A s2" .
        from joins_mono[OF this cyc] show ?thesis by (simp add: mutual_inv_def joins_sym)
      next
        case nB: False
        from "2.prems"(3) nA nB have "mutual_inv A B ?s1" by (auto simp: mutual_inv_def joins_def)
        from step[OF this] have "mutual_inv A B s2" .
        with node(5) nA nB show ?thesis by (auto simp: mutual_inv_def joins_def)
      qed
    qed
  qed
next
  case (3 k assets pth s)
  then show ?case by simp
next
  case (4 k assets d rest pth s)
  from "4.prems"(1) obtain s1 where
    s1: "dfs k assets d pth s = Some s1" and s': "dfs_deps k assets rest pth s1 = Some s'"
    by (rule dfs_deps_Cons_cases)
  from dfs_frame(1)[OF s1] "4.prems"(2) have p1: "set pth = recursionStack s1" by simp
  from "4.IH"(1)[OF s1 "4.prems"(2-5)] have "mutual_inv A B s1" .
  from "4.IH"(2)[OF s1 s' p1 this "4.prems"(4,5)] show ?case .
qed

lemma dfs_all_mutual_inv:
  assumes AB: "(A, B) \<in> dep_edges assets" and BA: "(B, A) \<in> dep_edges assets"
  shows "dfs_all k assets xs s = Some s' \<Longrightarrow> recursionStack s = {} \<Longrightarrow>
     mutual_inv A B s \<Longrightarrow> mutual_inv A B s'"
proof (induction xs arbitrary: s)
  case Nil
  then show ?case by simp
next
  case (Cons a rest)
  from Cons.prems(1) show ?case
  proof (cases rule: dfs_all_Cons_cases)
    case skip
    from Cons.IH[OF skip(2) Cons.prems(2) Cons.prems(3)] show ?thesis .
  next
    case (call s1)
    from dfs_mutual_inv(1)[OF call(2) _ Cons.prems(3) AB BA] Cons.prems(2)
    have "mutual_inv A B s1" by simp
    moreover from dfs_frame(1)[OF call(2)] Cons.prems(2) have "recursionStack s1 = {}" by simp
    ultimately show ?thesis using Cons.IH[OF call(3)] by simp
  qed
qed

text \<open>
  C4.  Let \<open>A\<close> and \<open>B\<close> depend on each other: the descriptor that the lookup returns for
  \<open>A\<close> lists \<open>B\<close>, and the one it returns for \<open>B\<close> lists \<open>A\<close> (for pairwise different
  names these are simply the descriptors named \<open>A\<close> and \<open>B\<close>).  Then the detector,
  at every call-stack depth above the number of descriptors, returns, and among the
  cycles it returns there is one of at least two names that begins and ends with the
  same name and contains both \<open>A\<close> and \<open>B\<close>.
\<close>

theorem findCircularDependencies_mutual:
  assumes AB: "(A, B) \<in> dep_edges assets" and BA: "(B, A) \<in> dep_edges assets"
    and k: "length assets < k"
  shows "\<exists>cs. findCircularDependencies k assets = Some cs \<and>
           (\<exists>c\<in>set cs. 2 \<le> length c \<and> hd c = last c \<and> A \<in> set c \<and> B \<in> set c)"
proof -
  from findCircularDependencies_returns[OF k] obtain s' where
    run: "dfs_all k assets assets dfs_init = Some s'"
    by (auto simp: findCircularDependencies_def)
  have init: "recursionStack dfs_init = {}" "mutual_inv A B dfs_init"
    by (simp_all add: dfs_init_def mutual_inv_def)
  from dfs_all_mutual_inv[OF AB BA run init] have m: "mutual_inv A B s'" .
  from dfs_all_frame[OF run init(1)] init(1)
  have fr: "recursionStack s' = {}" "name ` set assets \<subseteq> visited s'" by simp_all
  from AB obtain a where "find_asset assets A = Some a" by (auto simp: dep_edges_def)
  from find_asset_Some[OF this] fr(2) have "A \<in> visited s'" by auto
  with m fr(1) have "joins A B s'" by (auto simp: mutual_inv_def)
  with run show ?thesis by (simp add: findCircularDependencies_def joins_def)
qed

lemma dep_edges_Nil [simp]: "dep_edges [] = {}"
  by (simp add: dep_edges_def find_asset_def)

lemma dep_edges_Cons:
  "dep_edges (a # assets) =
     {(name a, d) | d. d \<in> set (depends a)} \<union> {(n, d). (n, d) \<in> dep_edges assets \<and> n \<noteq> name a}"
  by (auto simp: dep_edges_def find_asset_def split: if_splits)

text \<open>
  The statement at \<open>X\<close> depending on \<open>Y\<close> and \<open>Y\<close> on \<open>X\<close>.
\<close>

theorem findCircularDependencies_mutual_witness:
  "(''X'', ''Y'') \<in> dep_edges [bare_asset ''X'' [''Y''], bare_asset ''Y'' [''X'']]
   \<and> (''Y'', ''X'') \<in> dep_edges [bare_asset ''X'' [''Y''], bare_asset ''Y'' [''X'']]
   \<and> length [bare_asset ''X'' [''Y''], bare_asset ''Y'' [''X'']] < 3
   \<and> (\<exists>cs. findCircularDependencies 3 [bare_asset ''X'' [''Y''], bare_asset ''Y'' [''X'']] = Some cs \<and>
           (\<exists>c\<in>set cs. 2 \<le> length c \<and> hd c = last c \<and> ''X'' \<in> set c \<and> ''Y'' \<in> set c))"
  using findCircularDependencies_mutual
    [of "''X''" "''Y''" "[bare_asset ''X'' [''Y''], bare_asset ''Y'' [''X'']]" 3]
  by (simp add: dep_edges_Cons)

lemma example_acyclic: "acyclic (dep_edges [bare_asset ''A'' [], bare_asset ''B'' [''A'']])"
proof -
  have "dep_edges [bare_asset ''A'' [], bare_asset ''B'' [''A'']] = {(''B'', ''A'')}"
    by (auto simp: dep_edges_Cons)
  moreover have "acyclic ({} :: (string \<times> string) set)" by (simp add: acyclic_def)
  ultimately show ?thesis by simp
qed

text \<open>
  C5.  At every call-stack depth above the number of descriptors the detector returns
  a list of cycles (a value: the source has no \<open>throw\<close> on this path); every cycle in it
  has at least two names and its first name equals its last; and the list is empty when
  the dependency graph is acyclic.
\<close>

theorem findCircularDependencies_cycles:
  assumes "length assets < k"
  shows "\<exists>cs. findCircularDependencies k assets = Some cs \<and>
           (\<forall>c\<in>set cs. 2 \<le> length c \<and> hd c = last c) \<and>
           (acyclic (dep_edges assets) \<longrightarrow> cs = [])"
proof -
  from findCircularDependencies_returns[OF assms] obtain s' where
    run: "dfs_all k assets assets dfs_init = Some s'"
    by (auto simp: findCircularDependencies_def)
  have "\<forall>c\<in>set (cycles dfs_init). closed_walk assets c" by (simp add: dfs_init_def)
  from dfs_all_cycles_shape[OF run this]
  have "\<forall>c\<in>set (cycles s'). 2 \<le> length c \<and> hd c = last c" by (simp add: closed_walk_def)
  moreover have "acyclic (dep_edges assets) \<longrightarrow> cycles s' = []"
    using dfs_all_acyclic_no_cycle[OF run] by (simp add: dfs_init_def)
  ultimately show ?thesis using run by (simp add: findCircularDependencies_def)
qed

text \<open>
  The statement at the acyclic set of \<open>A\<close> and of \<open>B\<close> depending on \<open>A\<close>.
\<close>

theorem findCircularDependencies_cycles_witness:
  "length [bare_asset ''A'' [], bare_asset ''B'' [''A'']] < 3
   \<and> acyclic (dep_edges [bare_asset ''A'' [], bare_asset ''B'' [''A'']])
   \<and> findCircularDependencies 3 [bare_asset ''A'' [], bare_asset ''B'' [''A'']] = Some []
   \<and> length [bare_asset ''X'' [''Y''], bare_asset ''Y'' [''X'']] < 3
   \<and> findCircularDependencies 3 [bare_asset ''X'' [''Y''], bare_asset ''Y'' [''X'']]
       = Some [[''X'', ''Y'', ''X'']]
   \<and> 2 \<le> length [''X'', ''Y'', ''X''] \<and> hd [''X'', ''Y'', ''X''] = last [''X'', ''Y'', ''X'']"
  using findCircularDependencies_cycles [of "[bare_asset ''A'' [], bare_asset ''B'' [''A'']]" 3]
    findCircularDependencies_cycles [of "[bare_asset ''X'' [''Y''], bare_asset ''Y'' [''X'']]" 3]
    example_acyclic
  by (auto simp: findCircularDependencies_def dfs_init_def find_asset_def eval_nat_numeral slice_def)

lemma dfs_returns_at_once:
  "n \<in> visited s \<or> n \<in> recursionStack s \<Longrightarrow> \<exists>s'. dfs (Suc 0) assets n pth s = Some s'"
  by (auto simp: Let_def)

text \<open>
  C6.  The traversal terminates.  \<open>dfs\<close> returns whenever the call-stack depth exceeds
  the number of descriptor names not yet visited: every nested call marks one more of
  them, and a name that is visited or on the recursion stack is not entered again (the
  call on it returns without a nested call).  Hence the detector returns at every
  depth above the number of descriptors, whatever the dependency lists are,
  self-referential and mutually referential ones included.
\<close>

theorem findCircularDependencies_total:
  "(card (name ` set assets - visited s) < k \<longrightarrow> (\<exists>s'. dfs k assets n pth s = Some s'))
   \<and> (n \<in> visited s \<or> n \<in> recursionStack s \<longrightarrow> (\<exists>s'. dfs (Suc 0) assets n pth s = Some s'))
   \<and> (length assets < k \<longrightarrow> (\<exists>cs. findCircularDependencies k assets = Some cs))"
  using dfs_terminates(1)[of assets s k n pth] dfs_returns_at_once[of n s assets pth]
    findCircularDependencies_returns[of assets k]
  by blast

text \<open>
  The statement at \<open>X\<close> depending on itself and on \<open>Y\<close>, and \<open>Y\<close> depending on \<open>X\<close>.
\<close>

theorem findCircularDependencies_total_witness:
  "card (name ` set [bare_asset ''X'' [''X'', ''Y''], bare_asset ''Y'' [''X'']]
          - visited \<lparr>cycles = [], visited = {''X''}, recursionStack = {}\<rparr>) < 3
   \<and> ''X'' \<in> visited \<lparr>cycles = [], visited = {''X''}, recursionStack = {}\<rparr>
   \<and> length [bare_asset ''X'' [''X'', ''Y''], bare_asset ''Y'' [''X'']] < 3
   \<and> (\<exists>s'. dfs 3 [bare_asset ''X'' [''X'', ''Y''], bare_asset ''Y'' [''X'']] ''X'' []
              \<lparr>cycles = [], visited = {''X''}, recursionStack = {}\<rparr> = Some s')
   \<and> (\<exists>s'. dfs (Suc 0) [bare_asset ''X'' [''X'', ''Y''], bare_asset ''Y'' [''X'']] ''X'' []
              \<lparr>cycles = [], visited = {''X''}, recursionStack = {}\<rparr> = Some s')
   \<and> (\<exists>cs. findCircularDependencies 3 [bare_asset ''X'' [''X'', ''Y''], bare_asset ''Y'' [''X'']]
         = Some cs)"
proof -
  have c: "card (name ` set [bare_asset ''X'' [''X'', ''Y''], bare_asset ''Y'' [''X'']]
          - visited \<lparr>cycles = [], visited = {''X''}, recursionStack = {}\<rparr>) < 3"
    by simp
  from findCircularDependencies_total
    [of "[bare_asset ''X'' [''X'', ''Y''], bare_asset ''Y'' [''X'']]"
        "\<lparr>cycles = [], visited = {''X''}, recursionStack = {}\<rparr>" 3 "''X''" "[]"] c
  show ?thesis by simp
qed

lemma dfs_absent_name:
  assumes "n \<notin> name ` set assets" and "recursionStack s \<subseteq> name ` set assets"
  shows "\<exists>s'. dfs (Suc k) assets n pth s = Some s' \<and> cycles s' = cycles s \<and>
           recursionStack s' = recursionStack s"
proof -
  from assms have "n \<notin> recursionStack s" by auto
  moreover from assms(1) have "find_asset assets n = None" by (simp add: find_asset_None)
  ultimately show ?thesis by (auto simp: Let_def)
qed

text \<open>
  C9.  A call of \<open>dfs\<close> on a name without descriptor returns without any nested call,
  records no cycle and leaves the recursion stack as it was, whenever the stack holds
  names of descriptors only (as it does throughout a run: a name stays on the stack
  only while the dependencies of its descriptor are traversed).  And every cycle that
  the detector reports is non-empty and made of names of descriptors only, so none
  begins at, or passes through, a name absent from the set.
\<close>

theorem findCircularDependencies_absent_names:
  "(n \<notin> name ` set assets \<and> recursionStack s \<subseteq> name ` set assets \<longrightarrow>
      (\<exists>s'. dfs (Suc k) assets n pth s = Some s' \<and> cycles s' = cycles s \<and>
            recursionStack s' = recursionStack s))
   \<and> (findCircularDependencies j assets = Some cs \<longrightarrow>
        (\<forall>c\<in>set cs. c \<noteq> [] \<and> set c \<subseteq> name ` set assets))"
proof -
  have "\<forall>c\<in>set cs. c \<noteq> [] \<and> set c \<subseteq> name ` set assets"
    if "findCircularDependencies j assets = Some cs"
  proof -
    from that obtain s' where run: "dfs_all j assets assets dfs_init = Some s'" and cs: "cs = cycles s'"
      by (auto simp: findCircularDependencies_def)
    have "\<forall>c\<in>set (cycles dfs_init). closed_walk assets c" by (simp add: dfs_init_def)
    from dfs_all_cycles_shape[OF run this] cs show ?thesis by (auto simp: closed_walk_def)
  qed
  with dfs_absent_name[of n assets s k pth] show ?thesis by blast
qed

text \<open>
  The statement at \<open>A\<close> depending on an absent name and on itself.
\<close>

theorem findCircularDependencies_absent_names_witness:
  "''yii.web.JqueryAsset'' \<notin> name ` set [bare_asset ''A'' [''yii.web.JqueryAsset'', ''A'']]
   \<and> recursionStack dfs_init \<subseteq> name ` set [bare_asset ''A'' [''yii.web.JqueryAsset'', ''A'']]
   \<and> findCircularDependencies 2 [bare_asset ''A'' [''yii.web.JqueryAsset'', ''A'']] = Some [[''A'', ''A'']]
   \<and> (\<exists>s'. dfs (Suc 0) [bare_asset ''A'' [''yii.web.JqueryAsset'', ''A'']] ''yii.web.JqueryAsset'' [] dfs_init = Some s'
          \<and> cycles s' = cycles dfs_init \<and> recursionStack s' = recursionStack dfs_init)
   \<and> [''A'', ''A''] \<noteq> []
   \<and> set [''A'', ''A''] \<subseteq> name ` set [bare_asset ''A'' [''yii.web.JqueryAsset'', ''A'']]"
proof -
  have r: "findCircularDependencies 2 [bare_asset ''A'' [''yii.web.JqueryAsset'', ''A'']]
             = Some [[''A'', ''A'']]"
    by (simp add: findCircularDependencies_def dfs_init_def find_asset_def eval_nat_numeral slice_def)
  have st: "recursionStack dfs_init \<subseteq> name ` set [bare_asset ''A'' [''yii.web.JqueryAsset'', ''A'']]"
    by (simp add: dfs_init_def)
  from findCircularDependencies_absent_names
    [where n = "''yii.web.JqueryAsset''" and assets = "[bare_asset ''A'' [''yii.web.JqueryAsset'', ''A'']]"
       and s = dfs_init and k = 0 and pth = "[]" and j = 2 and cs = "[[''A'', ''A'']]"] r st
  show ?thesis by simp
qed

section \<open>The topological order\<close>

lemma visit_Suc_cases:
  assumes "visit (Suc k) assets n s = Some s'"
  obtains
    (busy) "n \<in> ts_temp s" "s' = s"
  | (seen) "n \<notin> ts_temp s" "n \<in> ts_visited s" "s' = s"
  | (leaf) "n \<notin> ts_temp s" "n \<notin> ts_visited s" "find_asset assets n = None"
      "s' = s\<lparr>ts_temp := insert n (ts_temp s)\<rparr>"
  | (node) a s2 where "n \<notin> ts_temp s" "n \<notin> ts_visited s" "find_asset assets n = Some a"
      "visit_deps k assets (depends a) (s\<lparr>ts_temp := insert n (ts_temp s)\<rparr>) = Some s2"
      "s' = s2\<lparr>ts_temp := ts_temp s2 - {n}, ts_visited := insert n (ts_visited s2),
               ts_sorted := a # ts_sorted s2\<rparr>"
  using assms by (auto simp: Let_def split: if_splits option.splits)

lemma visit_deps_Cons_cases:
  assumes "visit_deps k assets (d # ds) s = Some s'"
  obtains (absent) "find_asset assets d = None" "visit_deps k assets ds s = Some s'"
  | (present) a s1 where "find_asset assets d = Some a" "visit k assets d s = Some s1"
      "visit_deps k assets ds s1 = Some s'"
  using assms by (auto split: option.splits)

lemma visit_all_Cons_cases:
  assumes "visit_all k assets (a # rest) s = Some s'"
  obtains (skip) "name a \<in> ts_visited s" "visit_all k assets rest s = Some s'"
  | (call) s1 where "name a \<notin> ts_visited s" "visit k assets (name a) s = Some s1"
      "visit_all k assets rest s1 = Some s'"
  using assms by (auto split: option.splits if_splits)

text \<open>The names that are visited or in progress only grow.\<close>

lemma visit_entered_mono:
  "visit k assets n s = Some s' \<Longrightarrow> ts_visited s \<union> ts_temp s \<subseteq> ts_visited s' \<union> ts_temp s'"
  "visit_deps k assets ds s = Some s' \<Longrightarrow> ts_visited s \<union> ts_temp s \<subseteq> ts_visited s' \<union> ts_temp s'"
proof (induction k assets n s and k assets ds s arbitrary: s' and s' rule: visit_visit_deps.induct)
  case (1 assets n s)
  then show ?case by simp
next
  case (2 k assets n s)
  from "2.prems" show ?case
  proof (cases rule: visit_Suc_cases)
    case (node a s2)
    from "2.IH"[OF node(1) node(2) refl node(3) node(4)] node(5) show ?thesis by auto
  qed auto
next
  case (3 k assets s)
  then show ?case by simp
next
  case (4 k assets d ds s)
  from "4.prems" show ?case
  proof (cases rule: visit_deps_Cons_cases)
    case absent
    from "4.IH"(1)[OF absent(1) absent(2)] show ?thesis .
  next
    case (present a s1)
    from "4.IH"(2)[OF present(1) present(2)] "4.IH"(3)[OF present(1) present(2) present(3)]
    show ?thesis by blast
  qed
qed

lemma card_left_mono:
  "V \<subseteq> V' \<Longrightarrow> card (name ` set assets - V') \<le> card (name ` set assets - V)"
  by (intro card_mono) auto

lemma visit_terminates:
  "card (name ` set assets - (ts_visited s \<union> ts_temp s)) < k \<Longrightarrow>
     \<exists>s'. visit k assets n s = Some s'"
  "card (name ` set assets - (ts_visited s \<union> ts_temp s)) < k \<Longrightarrow>
     \<exists>s'. visit_deps k assets ds s = Some s'"
proof (induction k assets n s and k assets ds s rule: visit_visit_deps.induct)
  case (1 assets n s)
  then show ?case by simp
next
  case (2 k assets n s)
  show ?case
  proof (cases "n \<notin> ts_temp s \<and> n \<notin> ts_visited s \<and> find_asset assets n \<noteq> None")
    case False
    then show ?thesis by (auto simp: Let_def)
  next
    case True
    then obtain a where a: "find_asset assets n = Some a" by blast
    let ?s1 = "s\<lparr>ts_temp := insert n (ts_temp s)\<rparr>"
    from find_asset_Some[OF a] True
    have "name ` set assets - (ts_visited ?s1 \<union> ts_temp ?s1)
            \<subset> name ` set assets - (ts_visited s \<union> ts_temp s)" by auto
    then have "card (name ` set assets - (ts_visited ?s1 \<union> ts_temp ?s1))
                 < card (name ` set assets - (ts_visited s \<union> ts_temp s))"
      by (intro psubset_card_mono) auto
    with "2.prems" have "card (name ` set assets - (ts_visited ?s1 \<union> ts_temp ?s1)) < k" by simp
    from "2.IH"[OF _ _ refl a this] True obtain s2 where
      "visit_deps k assets (depends a) ?s1 = Some s2" by blast
    with True a show ?thesis by (simp add: Let_def)
  qed
next
  case (3 k assets s)
  then show ?case by simp
next
  case (4 k assets d ds s)
  show ?case
  proof (cases "find_asset assets d")
    case None
    with "4.IH"(1)[OF None "4.prems"] show ?thesis by simp
  next
    case (Some a)
    from "4.IH"(2)[OF Some "4.prems"] obtain s1 where s1: "visit k assets d s = Some s1" by blast
    from card_left_mono[OF visit_entered_mono(1)[OF s1], where assets = assets] "4.prems"
    have "card (name ` set assets - (ts_visited s1 \<union> ts_temp s1)) < k" by simp
    from "4.IH"(3)[OF Some s1 this] Some s1 show ?thesis by simp
  qed
qed

lemma visit_all_terminates:
  "card (name ` set assets - (ts_visited s \<union> ts_temp s)) < k \<Longrightarrow>
     \<exists>s'. visit_all k assets xs s = Some s'"
proof (induction xs arbitrary: s)
  case Nil
  then show ?case by simp
next
  case (Cons a rest)
  show ?case
  proof (cases "name a \<in> ts_visited s")
    case True
    with Cons.IH[OF Cons.prems] show ?thesis by simp
  next
    case False
    from visit_terminates(1)[OF Cons.prems] obtain s1 where
      s1: "visit k assets (name a) s = Some s1" by blast
    from card_left_mono[OF visit_entered_mono(1)[OF s1], where assets = assets] Cons.prems
    have "card (name ` set assets - (ts_visited s1 \<union> ts_temp s1)) < k" by simp
    from Cons.IH[OF this] False s1 show ?thesis by simp
  qed
qed

lemma topologicalSort_returns:
  assumes "length assets < k"
  shows "\<exists>out. topologicalSort k assets = Some out"
proof -
  from card_names_le[of assets "ts_visited topo_init \<union> ts_temp topo_init"] assms
  have "card (name ` set assets - (ts_visited topo_init \<union> ts_temp topo_init)) < k" by simp
  from visit_all_terminates[OF this, of assets] show ?thesis
    by (auto simp: topologicalSort_def)
qed

lemma visit_order:
  "visit k assets n s = Some s' \<Longrightarrow> acyclic (dep_edges assets) \<Longrightarrow> topo_inv assets s \<Longrightarrow>
     n \<in> name ` set assets \<Longrightarrow> \<forall>t\<in>ts_temp s. (t, n) \<in> (dep_edges assets)\<^sup>+ \<Longrightarrow>
     topo_inv assets s' \<and> ts_temp s' = ts_temp s \<and> ts_visited s \<subseteq> ts_visited s' \<and>
     n \<in> ts_visited s'"
  "visit_deps k assets ds s = Some s' \<Longrightarrow> acyclic (dep_edges assets) \<Longrightarrow> topo_inv assets s \<Longrightarrow>
     \<forall>t\<in>ts_temp s. \<forall>d\<in>set ds. d \<in> name ` set assets \<longrightarrow> (t, d) \<in> (dep_edges assets)\<^sup>+ \<Longrightarrow>
     topo_inv assets s' \<and> ts_temp s' = ts_temp s \<and> ts_visited s \<subseteq> ts_visited s' \<and>
     (\<forall>d\<in>set ds. d \<in> name ` set assets \<longrightarrow> d \<in> ts_visited s')"
proof (induction k assets n s and k assets ds s arbitrary: s' and s' rule: visit_visit_deps.induct)
  case (1 assets n s)
  then show ?case by simp
next
  case (2 k assets n s)
  note acyc = "2.prems"(2) and inv = "2.prems"(3) and node_n = "2.prems"(4) and anc = "2.prems"(5)
  have notbusy: "n \<notin> ts_temp s"
  proof
    assume "n \<in> ts_temp s"
    with anc have "(n, n) \<in> (dep_edges assets)\<^sup>+" by blast
    with acyc show False by (simp add: acyclic_def)
  qed
  from "2.prems"(1) show ?case
  proof (cases rule: visit_Suc_cases)
    case busy
    with notbusy show ?thesis by simp
  next
    case seen
    with inv show ?thesis by simp
  next
    case leaf
    with node_n show ?thesis by (simp add: find_asset_None)
  next
    case (node a s2)
    let ?s1 = "s\<lparr>ts_temp := insert n (ts_temp s)\<rparr>"
    from find_asset_Some[OF node(3)] have na: "name a = n" by simp
    from inv node(2) have inv1: "topo_inv assets ?s1" by (simp add: topo_inv_def)
    have anc1: "\<forall>t\<in>ts_temp ?s1. \<forall>d\<in>set (depends a). d \<in> name ` set assets \<longrightarrow>
                  (t, d) \<in> (dep_edges assets)\<^sup>+"
    proof (intro ballI impI)
      fix t d assume t: "t \<in> ts_temp ?s1" and d: "d \<in> set (depends a)"
      from d node(3) have e: "(n, d) \<in> dep_edges assets" by (auto simp: dep_edges_def)
      show "(t, d) \<in> (dep_edges assets)\<^sup>+"
      proof (cases "t = n")
        case True
        with e show ?thesis by blast
      next
        case False
        with t anc have "(t, n) \<in> (dep_edges assets)\<^sup>+" by simp
        then show ?thesis using e by (rule trancl_into_trancl)
      qed
    qed
    from "2.IH"[OF node(1) node(2) refl node(3) node(4) acyc inv1 anc1]
    have inv2: "topo_inv assets s2" and tmp2: "ts_temp s2 = insert n (ts_temp s)"
      and vis2: "ts_visited s \<subseteq> ts_visited s2"
      and deps2: "\<forall>d\<in>set (depends a). d \<in> name ` set assets \<longrightarrow> d \<in> ts_visited s2"
      by simp_all
    from inv2 tmp2 have nfresh: "n \<notin> ts_visited s2" by (auto simp: topo_inv_def)
    from inv2 nfresh deps2 na node(3) have "topo_inv assets s'"
      unfolding node(5) topo_inv_def by auto
    moreover from tmp2 node(1) have "ts_temp s' = ts_temp s" unfolding node(5) by auto
    moreover from vis2 have "ts_visited s \<subseteq> ts_visited s'" unfolding node(5) by auto
    moreover have "n \<in> ts_visited s'" unfolding node(5) by simp
    ultimately show ?thesis by simp
  qed
next
  case (3 k assets s)
  then show ?case by simp
next
  case (4 k assets d ds s)
  note acyc = "4.prems"(2) and inv = "4.prems"(3) and anc = "4.prems"(4)
  from "4.prems"(1) show ?case
  proof (cases rule: visit_deps_Cons_cases)
    case absent
    from anc have anc': "\<forall>t\<in>ts_temp s. \<forall>d\<in>set ds. d \<in> name ` set assets \<longrightarrow>
        (t, d) \<in> (dep_edges assets)\<^sup>+" by simp
    from "4.IH"(1)[OF absent(1) absent(2) acyc inv anc'] absent(1)
    show ?thesis by (simp add: find_asset_None)
  next
    case (present a s1)
    from find_asset_Some[OF present(1)] have dn: "d \<in> name ` set assets" by auto
    with anc have ancd: "\<forall>t\<in>ts_temp s. (t, d) \<in> (dep_edges assets)\<^sup>+" by simp
    from "4.IH"(2)[OF present(1) present(2) acyc inv dn ancd]
    have inv1: "topo_inv assets s1" and tmp1: "ts_temp s1 = ts_temp s"
      and vis1: "ts_visited s \<subseteq> ts_visited s1" and d1: "d \<in> ts_visited s1" by simp_all
    from anc tmp1 have anc1: "\<forall>t\<in>ts_temp s1. \<forall>d\<in>set ds. d \<in> name ` set assets \<longrightarrow>
        (t, d) \<in> (dep_edges assets)\<^sup>+" by simp
    from "4.IH"(3)[OF present(1) present(2) present(3) acyc inv1 anc1] tmp1 vis1 d1
    show ?thesis by auto
  qed
qed

lemma visit_all_order:
  "visit_all k assets xs s = Some s' \<Longrightarrow> acyclic (dep_edges assets) \<Longrightarrow> topo_inv assets s \<Longrightarrow>
     set xs \<subseteq> set assets \<Longrightarrow> ts_temp s = {} \<Longrightarrow>
     topo_inv assets s' \<and> ts_temp s' = {} \<and> ts_visited s \<subseteq> ts_visited s' \<and>
     name ` set xs \<subseteq> ts_visited s'"
proof (induction xs arbitrary: s)
  case Nil
  then show ?case by simp
next
  case (Cons a rest)
  from Cons.prems(4) have rest: "set rest \<subseteq> set assets" and a: "name a \<in> name ` set assets"
    by auto
  from Cons.prems(1) show ?case
  proof (cases rule: visit_all_Cons_cases)
    case skip
    from Cons.IH[OF skip(2) Cons.prems(2) Cons.prems(3) rest Cons.prems(5)] skip(1)
    show ?thesis by auto
  next
    case (call s1)
    from visit_order(1)[OF call(2) Cons.prems(2) Cons.prems(3) a] Cons.prems(5)
    have s1: "topo_inv assets s1" "ts_temp s1 = {}" "ts_visited s \<subseteq> ts_visited s1"
      "name a \<in> ts_visited s1" by simp_all
    from Cons.IH[OF call(3) Cons.prems(2) s1(1) rest s1(2)] s1 show ?thesis by auto
  qed
qed

lemma indexOf_nonneg_iff: "0 \<le> indexOf xs x \<longleftrightarrow> x \<in> set xs"
  using indexOf_ge[of xs x] indexOf_neg_iff[of xs x] by auto

lemma deps_after_index:
  "deps_after assets out \<Longrightarrow> distinct (map name out) \<Longrightarrow> D \<in> set out \<Longrightarrow>
     R \<in> set (depends D) \<Longrightarrow> R \<in> name ` set assets \<Longrightarrow>
     0 \<le> indexOf (map name out) (name D) \<and>
     indexOf (map name out) (name D) < indexOf (map name out) R"
proof (induction out)
  case Nil
  then show ?case by simp
next
  case (Cons a ys)
  show ?case
  proof (cases "D = a")
    case True
    with Cons.prems have R: "R \<in> name ` set ys" by auto
    with Cons.prems(2) have ne: "name a \<noteq> R" by auto
    from R have "0 \<le> indexOf (map name ys) R" by (simp add: indexOf_nonneg_iff)
    with True ne show ?thesis by (auto simp: Let_def)
  next
    case False
    with Cons.prems have D: "D \<in> set ys" by simp
    from Cons.prems have "deps_after assets ys" "distinct (map name ys)" by simp_all
    from Cons.IH[OF this D Cons.prems(4) Cons.prems(5)]
    have ih: "0 \<le> indexOf (map name ys) (name D)"
      "indexOf (map name ys) (name D) < indexOf (map name ys) R" by simp_all
    then have "R \<in> set (map name ys)" using indexOf_nonneg_iff[of "map name ys" R] by simp
    with Cons.prems(2) have neR: "name a \<noteq> R" by auto
    from D Cons.prems(2) have neD: "name a \<noteq> name D" by auto
    from ih neR neD show ?thesis by (auto simp: Let_def)
  qed
qed

text \<open>
  C10.  For an acyclic set of descriptors with pairwise different names, at every
  call-stack depth above the number of descriptors \<open>topologicalSort\<close> returns a
  sequence that holds every descriptor exactly once and in which, for every descriptor
  \<open>D\<close> and every dependency \<open>R\<close> of \<open>D\<close> that names a descriptor, \<open>D\<close> stands at a
  strictly smaller index than \<open>R\<close>: dependents come before their dependencies.
\<close>

theorem topologicalSort_dependents_first:
  assumes dist: "distinct (map name assets)" and acyc: "acyclic (dep_edges assets)"
    and k: "length assets < k"
  shows "\<exists>out. topologicalSort k assets = Some out \<and> set out = set assets \<and> distinct out \<and>
           (\<forall>D\<in>set assets. \<forall>R\<in>set (depends D). R \<in> name ` set assets \<longrightarrow>
              0 \<le> indexOf (map name out) (name D) \<and>
              indexOf (map name out) (name D) < indexOf (map name out) R)"
proof -
  from topologicalSort_returns[OF k] obtain s' where
    run: "visit_all k assets assets topo_init = Some s'"
    by (auto simp: topologicalSort_def)
  have init: "topo_inv assets topo_init" "ts_temp topo_init = {}"
    by (simp_all add: topo_inv_def topo_init_def)
  from visit_all_order[OF run acyc init(1) subset_refl init(2)]
  have inv: "topo_inv assets s'" and all: "name ` set assets \<subseteq> ts_visited s'" by simp_all
  let ?out = "ts_sorted s'"
  from inv have sub: "set ?out \<subseteq> set assets"
    using find_asset_Some by (fastforce simp: topo_inv_def)
  have sup: "set assets \<subseteq> set ?out"
  proof
    fix D assume D: "D \<in> set assets"
    with all inv obtain a where a: "a \<in> set ?out" "name a = name D"
      by (auto simp: topo_inv_def) (metis image_iff subsetD)
    with sub have "a \<in> set assets" by auto
    with dist D a(2) have "a = D" by (simp add: distinct_map inj_on_def)
    with a(1) show "D \<in> set ?out" by simp
  qed
  from inv have dn: "distinct (map name ?out)" and da: "deps_after assets ?out"
    by (simp_all add: topo_inv_def)
  from dn have "distinct ?out" by (simp add: distinct_map)
  moreover have "\<forall>D\<in>set assets. \<forall>R\<in>set (depends D). R \<in> name ` set assets \<longrightarrow>
              0 \<le> indexOf (map name ?out) (name D) \<and>
              indexOf (map name ?out) (name D) < indexOf (map name ?out) R"
    using deps_after_index[OF da dn] sup by blast
  ultimately show ?thesis using run sub sup by (simp add: topologicalSort_def)
qed

text \<open>
  The statement at \<open>A\<close> and \<open>B\<close> depending on \<open>A\<close>: the result is \<open>B, A\<close>.
\<close>

theorem topologicalSort_dependents_first_witness:
  "distinct (map name [bare_asset ''A'' [], bare_asset ''B'' [''A'']])
   \<and> acyclic (dep_edges [bare_asset ''A'' [], bare_asset ''B'' [''A'']])
   \<and> length [bare_asset ''A'' [], bare_asset ''B'' [''A'']] < 3
   \<and> topologicalSort 3 [bare_asset ''A'' [], bare_asset ''B'' [''A'']]
       = Some [bare_asset ''B'' [''A''], bare_asset ''A'' []]
   \<and> indexOf (map name [bare_asset ''B'' [''A''], bare_asset ''A'' []]) ''B''
       < indexOf (map name [bare_asset ''B'' [''A''], bare_asset ''A'' []]) ''A''"
  using topologicalSort_dependents_first [of "[bare_asset ''A'' [], bare_asset ''B'' [''A'']]" 3]
    example_acyclic
  by (simp add: topologicalSort_def topo_init_def find_asset_def eval_nat_numeral)

text \<open>
  C1 (the scenario of the specification).  On \<open>A\<close> without dependencies, \<open>B\<close> depending
  on \<open>A\<close> and \<open>C\<close> depending on \<open>A\<close> and \<open>B\<close>, \<open>topologicalSort\<close> returns \<open>C, B, A\<close>:
  every descriptor once, but each dependent in front of its dependencies.
\<close>

theorem topologicalSort_scenario_reversed:
  "topologicalSort 3
     [bare_asset ''A'' [], bare_asset ''B'' [''A''], bare_asset ''C'' [''A'', ''B'']]
   = Some [bare_asset ''C'' [''A'', ''B''], bare_asset ''B'' [''A''], bare_asset ''A'' []]"
  by (simp add: topologicalSort_def topo_init_def find_asset_def eval_nat_numeral)

text \<open>
  C2, as stated, fails: on \<open>X\<close> depending on \<open>Y\<close> and \<open>Y\<close> depending on \<open>X\<close> the returned
  sequence is \<open>X, Y\<close>, which omits neither.
\<close>

theorem topologicalSort_two_cycle_keeps_both:
  "topologicalSort 3 [bare_asset ''X'' [''Y''], bare_asset ''Y'' [''X'']]
   = Some [bare_asset ''X'' [''Y''], bare_asset ''Y'' [''X'']]"
  by (simp add: topologicalSort_def topo_init_def find_asset_def eval_nat_numeral)

text \<open>
  C2, amended.  For two descriptors \<open>x\<close> and \<open>y\<close> of different names, \<open>x\<close> depending on
  \<open>y\<close> only and \<open>y\<close> on \<open>x\<close> only, \<open>topologicalSort\<close> returns at every call-stack depth of at
  least three, and what it returns is the sequence \<open>x, y\<close>: the nested visit of \<open>x\<close>
  returns at once, \<open>y\<close> is put into the result, then \<open>x\<close> in front of it.
\<close>

theorem topologicalSort_two_cycle:
  assumes "name x \<noteq> name y" and "depends x = [name y]" and "depends y = [name x]"
  shows "topologicalSort (Suc (Suc (Suc k))) [x, y] = Some [x, y]"
  using assms by (simp add: topologicalSort_def topo_init_def find_asset_def)

theorem topologicalSort_two_cycle_witness:
  "name (bare_asset ''X'' [''Y'']) \<noteq> name (bare_asset ''Y'' [''X''])
   \<and> depends (bare_asset ''X'' [''Y'']) = [name (bare_asset ''Y'' [''X''])]
   \<and> depends (bare_asset ''Y'' [''X'']) = [name (bare_asset ''X'' [''Y''])]
   \<and> topologicalSort (Suc (Suc (Suc 0))) [bare_asset ''X'' [''Y''], bare_asset ''Y'' [''X'']]
       = Some [bare_asset ''X'' [''Y''], bare_asset ''Y'' [''X'']]"
  using topologicalSort_two_cycle [of "bare_asset ''X'' [''Y'']" "bare_asset ''Y'' [''X'']" 0]
  by simp

section \<open>Descriptors of the same name\<close>

lemma find_asset_first:
  "find_asset assets n = Some a \<longleftrightarrow>
     (\<exists>pre post. assets = pre @ a # post \<and> name a = n \<and> n \<notin> name ` set pre)"
proof (induction assets)
  case Nil
  show ?case by (simp add: find_asset_def)
next
  case (Cons x xs)
  show ?case
  proof (cases "name x = n")
    case True
    have "(\<exists>pre post. x # xs = pre @ a # post \<and> name a = n \<and> n \<notin> name ` set pre) \<longleftrightarrow> a = x"
    proof
      assume "\<exists>pre post. x # xs = pre @ a # post \<and> name a = n \<and> n \<notin> name ` set pre"
      then obtain pre post where *: "x # xs = pre @ a # post" "n \<notin> name ` set pre" by blast
      with True show "a = x" by (cases pre) auto
    next
      assume "a = x"
      with True have "x # xs = [] @ a # xs \<and> name a = n \<and> n \<notin> name ` set []" by simp
      then show "\<exists>pre post. x # xs = pre @ a # post \<and> name a = n \<and> n \<notin> name ` set pre" by blast
    qed
    with True show ?thesis by (auto simp: find_asset_def)
  next
    case False
    have "(\<exists>pre post. x # xs = pre @ a # post \<and> name a = n \<and> n \<notin> name ` set pre) \<longleftrightarrow>
          (\<exists>pre post. xs = pre @ a # post \<and> name a = n \<and> n \<notin> name ` set pre)"
    proof
      assume "\<exists>pre post. x # xs = pre @ a # post \<and> name a = n \<and> n \<notin> name ` set pre"
      then obtain pre post where *: "x # xs = pre @ a # post" "name a = n" "n \<notin> name ` set pre"
        by blast
      with False obtain pre' where "pre = x # pre'" by (cases pre) auto
      with * have "xs = pre' @ a # post \<and> name a = n \<and> n \<notin> name ` set pre'" by auto
      then show "\<exists>pre post. xs = pre @ a # post \<and> name a = n \<and> n \<notin> name ` set pre" by blast
    next
      assume "\<exists>pre post. xs = pre @ a # post \<and> name a = n \<and> n \<notin> name ` set pre"
      then obtain pre post where "xs = pre @ a # post" "name a = n" "n \<notin> name ` set pre" by blast
      with False have "x # xs = (x # pre) @ a # post \<and> name a = n \<and> n \<notin> name ` set (x # pre)"
        by auto
      then show "\<exists>pre post. x # xs = pre @ a # post \<and> name a = n \<and> n \<notin> name ` set pre" by blast
    qed
    with False Cons show ?thesis by (simp add: find_asset_def)
  qed
qed

lemma visit_first_match:
  "visit k assets n s = Some s' \<Longrightarrow> first_match assets s \<Longrightarrow> first_match assets s'"
  "visit_deps k assets ds s = Some s' \<Longrightarrow> first_match assets s \<Longrightarrow> first_match assets s'"
proof (induction k assets n s and k assets ds s arbitrary: s' and s' rule: visit_visit_deps.induct)
  case (1 assets n s)
  then show ?case by simp
next
  case (2 k assets n s)
  from "2.prems"(1) show ?case
  proof (cases rule: visit_Suc_cases)
    case (node a s2)
    from "2.prems"(2) have "first_match assets (s\<lparr>ts_temp := insert n (ts_temp s)\<rparr>)"
      by (simp add: first_match_def)
    from "2.IH"[OF node(1) node(2) refl node(3) node(4) this] node(3) node(5)
      find_asset_Some[OF node(3)]
    show ?thesis by (auto simp: first_match_def)
  qed (use "2.prems"(2) in \<open>auto simp: first_match_def\<close>)
next
  case (3 k assets s)
  then show ?case by simp
next
  case (4 k assets d ds s)
  from "4.prems"(1) show ?case
  proof (cases rule: visit_deps_Cons_cases)
    case absent
    from "4.IH"(1)[OF absent(1) absent(2) "4.prems"(2)] show ?thesis .
  next
    case (present a s1)
    from "4.IH"(2)[OF present(1) present(2) "4.prems"(2)]
    have "first_match assets s1" .
    from "4.IH"(3)[OF present(1) present(2) present(3) this] show ?thesis .
  qed
qed

lemma visit_all_first_match:
  "visit_all k assets xs s = Some s' \<Longrightarrow> first_match assets s \<Longrightarrow> first_match assets s'"
proof (induction xs arbitrary: s)
  case Nil
  then show ?case by simp
next
  case (Cons a rest)
  from Cons.prems(1) show ?case
  proof (cases rule: visit_all_Cons_cases)
    case skip
    from Cons.IH[OF skip(2) Cons.prems(2)] show ?thesis .
  next
    case (call s1)
    from visit_first_match(1)[OF call(2) Cons.prems(2)] have "first_match assets s1" .
    from Cons.IH[OF call(3) this] show ?thesis .
  qed
qed

text \<open>
  C3, amended.  The lookup resolves a name to the first descriptor of the input that
  bears it: a later descriptor of the same name is never returned.  Accordingly every
  descriptor in the result of \<open>topologicalSort\<close> is the first one of its name, and the
  analysis of a single asset reports on the first descriptor of the requested name.
\<close>

theorem lookup_first_wins:
  "(find_asset assets n = Some a \<longleftrightarrow>
      (\<exists>pre post. assets = pre @ a # post \<and> name a = n \<and> n \<notin> name ` set pre))
   \<and> (topologicalSort k assets = Some out \<longrightarrow>
        (\<forall>x\<in>set out. find_asset assets (name x) = Some x))
   \<and> (n \<noteq> [] \<and> find_asset assets n = Some a \<longrightarrow>
        analyzeAssetDependencies k assets (Some n)
          = Some (Inr (Specific (analyzeSpecificAsset a assets))))"
proof (intro conjI impI)
  show "find_asset assets n = Some a \<longleftrightarrow>
      (\<exists>pre post. assets = pre @ a # post \<and> name a = n \<and> n \<notin> name ` set pre)"
    by (rule find_asset_first)
next
  assume "topologicalSort k assets = Some out"
  then obtain s' where run: "visit_all k assets assets topo_init = Some s'" and out: "out = ts_sorted s'"
    by (auto simp: topologicalSort_def)
  have "first_match assets topo_init" by (simp add: first_match_def topo_init_def)
  from visit_all_first_match[OF run this] out
  show "\<forall>x\<in>set out. find_asset assets (name x) = Some x" by (simp add: first_match_def)
next
  assume "n \<noteq> [] \<and> find_asset assets n = Some a"
  then show "analyzeAssetDependencies k assets (Some n)
          = Some (Inr (Specific (analyzeSpecificAsset a assets)))"
    by (simp add: analyzeAssetDependencies_def)
qed

text \<open>
  The statement at two descriptors named \<open>A\<close>, the first depending on \<open>A\<close>.
\<close>

theorem lookup_first_wins_witness:
  "find_asset [bare_asset ''A'' [''A''], bare_asset ''A'' []] ''A'' = Some (bare_asset ''A'' [''A''])
   \<and> (\<exists>pre post. [bare_asset ''A'' [''A''], bare_asset ''A'' []] = pre @ bare_asset ''A'' [''A''] # post
         \<and> ''A'' \<notin> name ` set pre)
   \<and> topologicalSort 2 [bare_asset ''A'' [''A''], bare_asset ''A'' []] = Some [bare_asset ''A'' [''A'']]
   \<and> find_asset [bare_asset ''A'' [''A''], bare_asset ''A'' []] (name (bare_asset ''A'' [''A'']))
       = Some (bare_asset ''A'' [''A''])
   \<and> ''A'' \<noteq> []
   \<and> analyzeAssetDependencies 2 [bare_asset ''A'' [''A''], bare_asset ''A'' []] (Some ''A'')
       = Some (Inr (Specific (analyzeSpecificAsset (bare_asset ''A'' [''A''])
                                [bare_asset ''A'' [''A''], bare_asset ''A'' []])))"
  using lookup_first_wins [of "[bare_asset ''A'' [''A''], bare_asset ''A'' []]" "''A''"
      "bare_asset ''A'' [''A'']" 2 "[bare_asset ''A'' [''A'']]"]
  by (simp add: find_asset_def topologicalSort_def topo_init_def eval_nat_numeral)

text \<open>
  C3, as stated, fails.  Of two descriptors named \<open>A\<close>, the first depending on \<open>A\<close> and
  the second on nothing, the lookup returns the first; the detector reports the cycle
  \<open>A, A\<close> of the first, the order holds the first one only, and the analysis of \<open>A\<close>
  reports the dependencies of the first.
\<close>

theorem later_duplicate_is_shadowed:
  "find_asset [bare_asset ''A'' [''A''], bare_asset ''A'' []] ''A'' = Some (bare_asset ''A'' [''A''])
   \<and> bare_asset ''A'' [''A''] \<noteq> bare_asset ''A'' []
   \<and> findCircularDependencies 2 [bare_asset ''A'' [''A''], bare_asset ''A'' []] = Some [[''A'', ''A'']]
   \<and> topologicalSort 2 [bare_asset ''A'' [''A''], bare_asset ''A'' []] = Some [bare_asset ''A'' [''A'']]
   \<and> analyzeAssetDependencies 2 [bare_asset ''A'' [''A''], bare_asset ''A'' []] (Some ''A'')
       = Some (Inr (Specific \<lparr>target = bare_asset ''A'' [''A''], dependencies = [''A''],
                              dependents = [bare_asset ''A'' [''A'']]\<rparr>))"
  by (simp add: find_asset_def findCircularDependencies_def dfs_init_def topologicalSort_def
      topo_init_def analyzeAssetDependencies_def analyzeSpecificAsset_def slice_def
      eval_nat_numeral)

section \<open>The analysis of a single asset\<close>

text \<open>
  C7, as stated, fails for the empty name: it is absent from the set, yet
  \<open>if (assetName)\<close> is false for it and the analysis of the whole set is returned.
\<close>

theorem empty_name_is_not_a_query:
  "[] \<notin> name ` set [bare_asset ''A'' []]
   \<and> analyzeAssetDependencies 2 [bare_asset ''A'' []] (Some [])
       = Some (Inr (Overall \<lparr>rootAssets = [bare_asset ''A'' []], complexAssets = [],
                             circularDeps = [], sortedAssets = [bare_asset ''A'' []]\<rparr>))"
  by (simp add: analyzeAssetDependencies_def analyzeAll_def findCircularDependencies_def
      dfs_init_def topologicalSort_def topo_init_def find_asset_def eval_nat_numeral)

text \<open>
  C7, amended.  For a non-empty requested name \<open>n\<close>: if no descriptor is named \<open>n\<close>,
  the call fails, and the message of the error names \<open>n\<close>; if one is, the call succeeds
  and reports the first descriptor named \<open>n\<close>, its declared dependencies (possibly
  none) and the descriptors whose dependencies contain \<open>n\<close>.
\<close>

theorem analyzeAssetDependencies_not_found:
  assumes "n \<noteq> []"
  shows "(n \<notin> name ` set assets \<longrightarrow>
            analyzeAssetDependencies k assets (Some n)
              = Some (Inl (''Failed to analyze asset dependencies: Asset '' @ [CHR 0x27] @ n
                           @ [CHR 0x27] @ '' not found'')))
       \<and> (n \<in> name ` set assets \<longrightarrow>
            (\<exists>a. find_asset assets n = Some a \<and> a \<in> set assets \<and> name a = n \<and>
               analyzeAssetDependencies k assets (Some n)
                 = Some (Inr (Specific \<lparr>target = a, dependencies = depends a,
                       dependents = filter (\<lambda>x. n \<in> set (depends x)) assets\<rparr>))))"
proof (intro conjI impI)
  assume "n \<notin> name ` set assets"
  then have "find_asset assets n = None" by (simp add: find_asset_None)
  with assms show "analyzeAssetDependencies k assets (Some n)
              = Some (Inl (''Failed to analyze asset dependencies: Asset '' @ [CHR 0x27] @ n
                           @ [CHR 0x27] @ '' not found''))"
    by (simp add: analyzeAssetDependencies_def failed_message_def not_found_message_def)
next
  assume "n \<in> name ` set assets"
  then obtain a where a: "find_asset assets n = Some a"
    using find_asset_None[of assets n] by (cases "find_asset assets n") auto
  from find_asset_Some[OF a] have "a \<in> set assets" "name a = n" by simp_all
  with a assms show "\<exists>a. find_asset assets n = Some a \<and> a \<in> set assets \<and> name a = n \<and>
               analyzeAssetDependencies k assets (Some n)
                 = Some (Inr (Specific \<lparr>target = a, dependencies = depends a,
                       dependents = filter (\<lambda>x. n \<in> set (depends x)) assets\<rparr>))"
    by (simp add: analyzeAssetDependencies_def analyzeSpecificAsset_def)
qed

text \<open>
  The statement at an absent name \<open>B\<close>, and at \<open>A\<close> without dependencies, used by \<open>C\<close>.
\<close>

theorem analyzeAssetDependencies_not_found_witness:
  "''B'' \<noteq> [] \<and> ''B'' \<notin> name ` set [bare_asset ''A'' []]
   \<and> analyzeAssetDependencies 0 [bare_asset ''A'' []] (Some ''B'')
       = Some (Inl ''Failed to analyze asset dependencies: Asset 'B' not found'')
   \<and> ''A'' \<noteq> [] \<and> ''A'' \<in> name ` set [bare_asset ''A'' [], bare_asset ''C'' [''A'']]
   \<and> analyzeAssetDependencies 0 [bare_asset ''A'' [], bare_asset ''C'' [''A'']] (Some ''A'')
       = Some (Inr (Specific \<lparr>target = bare_asset ''A'' [], dependencies = [],
                       dependents = [bare_asset ''C'' [''A'']]\<rparr>))"
  using analyzeAssetDependencies_not_found [of "''B''" "[bare_asset ''A'' []]" 0]
    analyzeAssetDependencies_not_found [of "''A''" "[bare_asset ''A'' [], bare_asset ''C'' [''A'']]" 0]
  by (simp add: find_asset_def)

section \<open>The shapes of a dependency\<close>

























end
